theory Spec2Isabelle
  imports Main
begin

section \<open>Game state of Application.cpp\<close>

text \<open>
  The translation unit keeps its state in file-level statics: a board of nine \<open>int\<close>
  cells (0 empty, 1 = X, 2 = O), the player to move, the game-over flag, the winner
  (0 none or draw) and the play-versus-AI toggle. The statics become one record that
  every operation takes and returns. No arithmetic is done on cell values, so they are
  unbounded integers here. A board is well formed when it has nine cells, as
  \<open>std::array<int, 9>\<close> always has.
\<close>

record game =
  board :: "int list"
  currentPlayer :: int
  gameOver :: bool
  winner :: int
  aiEnabled :: bool

text \<open>The static initialisers: the board is zero-initialised static storage.\<close>

definition initial :: game where
  "initial = \<lparr>board = replicate 9 0, currentPlayer = 1, gameOver = False,
               winner = 0, aiEnabled = True\<rparr>"

text \<open>The table \<open>WINS[8][3]\<close>, in the order of the source.\<close>

definition WINS :: "(nat \<times> nat \<times> nat) list" where
  "WINS = [(0, 1, 2), (3, 4, 5), (6, 7, 8),
           (0, 3, 6), (1, 4, 7), (2, 5, 8),
           (0, 4, 8), (2, 4, 6)]"

section \<open>Helpers\<close>

text \<open>\<open>ResetGame\<close>: fill the board with 0 and reset turn, flag and winner.\<close>

definition ResetGame :: "game \<Rightarrow> game" where
  "ResetGame s = s\<lparr>board := replicate 9 0, currentPlayer := 1,
                    gameOver := False, winner := 0\<rparr>"

text \<open>\<open>GameStartUp\<close> seeds the generator (not part of the record) and resets.\<close>

definition GameStartUp :: "game \<Rightarrow> game" where
  "GameStartUp s = ResetGame s"

text \<open>\<open>CheckWinner\<close>: the loop over the lines, returning at the first uniform one.\<close>

fun CheckWinner_lines :: "int list \<Rightarrow> (nat \<times> nat \<times> nat) list \<Rightarrow> int" where
  "CheckWinner_lines bd [] = 0"
| "CheckWinner_lines bd ((l0, l1, l2) # rest) =
     (let a = bd ! l0; b = bd ! l1; c = bd ! l2
      in if a \<noteq> 0 \<and> a = b \<and> b = c then a else CheckWinner_lines bd rest)"

definition CheckWinner :: "int list \<Rightarrow> int" where
  "CheckWinner bd = CheckWinner_lines bd WINS"

text \<open>\<open>CheckDraw\<close>: no winner, then the loop over the cells that fails at the first 0.\<close>

fun CheckDraw_cells :: "int list \<Rightarrow> bool" where
  "CheckDraw_cells [] = True"
| "CheckDraw_cells (v # vs) = (if v = 0 then False else CheckDraw_cells vs)"

definition CheckDraw :: "int list \<Rightarrow> bool" where
  "CheckDraw bd = (if CheckWinner bd \<noteq> 0 then False else CheckDraw_cells bd)"

text \<open>
  \<open>FindImmediateMove(target, moveOut)\<close>: the result \<open>Some m\<close> stands for returning true
  with \<open>moveOut = m\<close>, \<open>None\<close> for returning false (the caller reads \<open>moveOut\<close> only
  after true). The counts add the three comparisons as the source does.
\<close>

fun FindImmediateMove_lines ::
  "int \<Rightarrow> int list \<Rightarrow> (nat \<times> nat \<times> nat) list \<Rightarrow> nat option" where
  "FindImmediateMove_lines target bd [] = None"
| "FindImmediateMove_lines target bd ((a, b, c) # rest) =
     (let v0 = bd ! a; v1 = bd ! b; v2 = bd ! c;
          cntT = (of_bool (v0 = target) + of_bool (v1 = target) + of_bool (v2 = target) :: int);
          cntE = (of_bool (v0 = 0) + of_bool (v1 = 0) + of_bool (v2 = 0) :: int)
      in if cntT = 2 \<and> cntE = 1 then
           (if bd ! a = 0 then Some a
            else if bd ! b = 0 then Some b
            else if bd ! c = 0 then Some c
            else FindImmediateMove_lines target bd rest)
         else FindImmediateMove_lines target bd rest)"

definition FindImmediateMove :: "int \<Rightarrow> int list \<Rightarrow> nat option" where
  "FindImmediateMove target bd = FindImmediateMove_lines target bd WINS"

text \<open>
  The three branches of \<open>AIMove\<close> that write the board. The vector \<open>empty\<close> collects
  the indices of the empty cells in increasing order. The value drawn from
  \<open>uniform_int_distribution<int>(0, size - 1)\<close> is some index of that vector: the
  generator's raw output \<open>rnd\<close> is a parameter, reduced into the range, so that every
  index of the vector is drawn for some \<open>rnd\<close> and no other value ever is.
\<close>

definition empty_cells :: "int list \<Rightarrow> nat list" where
  "empty_cells bd = filter (\<lambda>i. bd ! i = 0) [0..<9]"

definition AIMove_board :: "nat \<Rightarrow> int list \<Rightarrow> int list" where
  "AIMove_board rnd bd =
     (case FindImmediateMove 2 bd of
        Some move \<Rightarrow> bd[move := 2]
      | None \<Rightarrow>
         (case FindImmediateMove 1 bd of
            Some move \<Rightarrow> bd[move := 2]
          | None \<Rightarrow>
             (let empty = empty_cells bd
              in if empty \<noteq> [] then bd[empty ! (rnd mod length empty) := 2] else bd)))"

text \<open>\<open>AIMove\<close>: nothing when the game is over; else place, then recompute.\<close>

definition AIMove :: "nat \<Rightarrow> game \<Rightarrow> game" where
  "AIMove rnd s =
     (if gameOver s then s
      else
        let bd = AIMove_board rnd (board s);
            w = CheckWinner bd;
            over = (w \<noteq> 0 \<or> CheckDraw bd)
        in s\<lparr>board := bd, winner := w, gameOver := over,
              currentPlayer := (if \<not> over then 1 else currentPlayer s)\<rparr>)"

section \<open>The cell buttons of DrawBoardUI\<close>

text \<open>The flag \<open>disabled\<close> computed for the cell \<open>idx\<close>.\<close>

definition disabled :: "nat \<Rightarrow> game \<Rightarrow> bool" where
  "disabled idx s =
     (gameOver s \<or> board s ! idx \<noteq> 0 \<or> (aiEnabled s \<and> currentPlayer s \<noteq> 1))"

text \<open>
  Modelled from the spec: the library call \<open>ImGui::Button\<close>, whose code is not part of
  the source file. Between \<open>BeginDisabled\<close> and \<open>EndDisabled\<close> a button takes no
  interaction (the adapter "must gate click interactivity so that occupied cells, a
  finished game, or the non-human player's turn cannot emit a move intent"), so it
  returns true only when the user clicks it and it is not disabled.
\<close>

definition Button :: "bool \<Rightarrow> bool \<Rightarrow> bool" where
  "Button dis clicked = (clicked \<and> \<not> dis)"

text \<open>
  The body run when the button of cell \<open>idx\<close> returns true, that is, on a move
  intent for that cell: what the specification calls \<open>apply_move\<close>. The source has
  it inline and gives it no name. It starts by writing the cell, with no check of its
  own.
\<close>

definition apply_move :: "nat \<Rightarrow> nat \<Rightarrow> game \<Rightarrow> game" where
  "apply_move idx rnd s =
     (let bd = (board s)[idx := currentPlayer s];
          w = CheckWinner bd;
          over = (w \<noteq> 0 \<or> CheckDraw bd);
          s' = s\<lparr>board := bd, winner := w, gameOver := over\<rparr>
      in if \<not> over then
           (if aiEnabled s' then AIMove rnd (s'\<lparr>currentPlayer := 2\<rparr>)
            else s'\<lparr>currentPlayer := (if currentPlayer s' = 1 then 2 else 1)\<rparr>)
         else s')"

text \<open>
  One cell of the loop of \<open>DrawBoardUI\<close>: \<open>clicked\<close> says whether the user clicks this
  cell in this frame. A click on cell \<open>idx\<close> is \<open>click_cell idx\<close>; it becomes a move
  intent only when the button is not disabled.
\<close>

definition DrawBoardUI_cell :: "nat \<Rightarrow> bool \<Rightarrow> nat \<Rightarrow> game \<Rightarrow> game" where
  "DrawBoardUI_cell idx clicked rnd s =
     (if Button (disabled idx s) clicked then apply_move idx rnd s else s)"

definition click_cell :: "nat \<Rightarrow> nat \<Rightarrow> game \<Rightarrow> game" where
  "click_cell idx rnd s = DrawBoardUI_cell idx True rnd s"

text \<open>
  The states the program can be in: the static initialisers, then any sequence of
  start-up, reset, the AI checkbox and frames of the nine cell buttons, with any draw of
  the generator. The last two rules add what the move handler and the opponent move
  produce when run on their own, without the button's gate, so that the set also
  covers every state that the core's operations can produce from the initial one.
\<close>

inductive_set reachable :: "game set" where
  r_initial: "initial \<in> reachable"
| r_startup: "s \<in> reachable \<Longrightarrow> GameStartUp s \<in> reachable"
| r_reset: "s \<in> reachable \<Longrightarrow> ResetGame s \<in> reachable"
| r_checkbox: "s \<in> reachable \<Longrightarrow> s\<lparr>aiEnabled := v\<rparr> \<in> reachable"
| r_cell: "s \<in> reachable \<Longrightarrow> idx < 9 \<Longrightarrow> DrawBoardUI_cell idx clicked rnd s \<in> reachable"
| r_move: "s \<in> reachable \<Longrightarrow> idx < 9 \<Longrightarrow> apply_move idx rnd s \<in> reachable"
| r_opponent: "s \<in> reachable \<Longrightarrow> AIMove rnd s \<in> reachable"

section \<open>Notions of the specification\<close>

text \<open>A win line is uniform and non-empty: its three cells hold one non-zero value.\<close>

fun uniform_line :: "int list \<Rightarrow> nat \<times> nat \<times> nat \<Rightarrow> bool" where
  "uniform_line bd (x, y, z) = (bd ! x \<noteq> 0 \<and> bd ! x = bd ! y \<and> bd ! y = bd ! z)"

text \<open>The three cell values of a line, and the indices that lie on it.\<close>

fun line_cells :: "int list \<Rightarrow> nat \<times> nat \<times> nat \<Rightarrow> int list" where
  "line_cells bd (x, y, z) = [bd ! x, bd ! y, bd ! z]"

fun on_line :: "nat \<Rightarrow> nat \<times> nat \<times> nat \<Rightarrow> bool" where
  "on_line m (x, y, z) = (m = x \<or> m = y \<or> m = z)"

text \<open>A line has exactly two cells holding the mark \<open>t\<close> and exactly one empty cell.\<close>

definition two_and_empty :: "int \<Rightarrow> int list \<Rightarrow> nat \<times> nat \<times> nat \<Rightarrow> bool" where
  "two_and_empty t bd L =
     (count_list (line_cells bd L) t = 2 \<and> count_list (line_cells bd L) 0 = 1)"

text \<open>The board with the line \<open>L\<close> uniformly set to \<open>M\<close> and all else empty.\<close>

definition line_board :: "nat \<times> nat \<times> nat \<Rightarrow> int \<Rightarrow> int list" where
  "line_board L M = (case L of (x, y, z) \<Rightarrow> (replicate 9 0)[x := M, y := M, z := M])"

text \<open>The number of marks on a board: its non-empty cells.\<close>

definition marks :: "int list \<Rightarrow> nat" where
  "marks bd = length (filter (\<lambda>v. v \<noteq> 0) bd)"

text \<open>
  Rows, columns and diagonals of the row-major grid (index = row * 3 + column), the
  order in which the specification says the lines are scanned.
\<close>

definition row_line :: "nat \<Rightarrow> nat \<times> nat \<times> nat" where
  "row_line r = (r * 3, r * 3 + 1, r * 3 + 2)"

definition column_line :: "nat \<Rightarrow> nat \<times> nat \<times> nat" where
  "column_line c = (c, 3 + c, 6 + c)"

definition diagonal_lines :: "(nat \<times> nat \<times> nat) list" where
  "diagonal_lines = [(0, 4, 8), (2, 4, 6)]"

section \<open>Counting on a line\<close>

lemma all_less_9:
  "(\<forall>i<9. P (i::nat)) \<longleftrightarrow> P 0 \<and> P 1 \<and> P 2 \<and> P 3 \<and> P 4 \<and> P 5 \<and> P 6 \<and> P 7 \<and> P 8"
proof -
  have "(9::nat) = Suc (Suc (Suc (Suc (Suc (Suc (Suc (Suc (Suc 0))))))))" by simp
  then show ?thesis
    by (simp only: All_less_Suc) (auto simp: eval_nat_numeral)
qed

lemma of_bool_sum_2:
  "(of_bool p + of_bool q + of_bool r :: int) = 2 \<longleftrightarrow>
     (p \<and> q \<and> \<not> r) \<or> (p \<and> \<not> q \<and> r) \<or> (\<not> p \<and> q \<and> r)"
  by (cases p; cases q; cases r) simp_all

lemma of_bool_sum_1:
  "(of_bool p + of_bool q + of_bool r :: int) = 1 \<longleftrightarrow>
     (p \<and> \<not> q \<and> \<not> r) \<or> (\<not> p \<and> q \<and> \<not> r) \<or> (\<not> p \<and> \<not> q \<and> r)"
  by (cases p; cases q; cases r) simp_all

lemma count_list_3_eq_2:
  "count_list [u, v, w] t = 2 \<longleftrightarrow>
     (u = t \<and> v = t \<and> w \<noteq> t) \<or> (u = t \<and> v \<noteq> t \<and> w = t) \<or> (u \<noteq> t \<and> v = t \<and> w = t)"
  by (cases "u = t"; cases "v = t"; cases "w = t") simp_all

lemma count_list_3_eq_1:
  "count_list [u, v, w] t = 1 \<longleftrightarrow>
     (u = t \<and> v \<noteq> t \<and> w \<noteq> t) \<or> (u \<noteq> t \<and> v = t \<and> w \<noteq> t) \<or> (u \<noteq> t \<and> v \<noteq> t \<and> w = t)"
  by (cases "u = t"; cases "v = t"; cases "w = t") simp_all

lemma two_and_empty_iff:
  "two_and_empty t bd (a, b, c) \<longleftrightarrow>
     (count_list [bd ! a, bd ! b, bd ! c] t = 2 \<and> count_list [bd ! a, bd ! b, bd ! c] 0 = 1)"
  by (simp add: two_and_empty_def)

text \<open>The source's two counters say what the specification's words say.\<close>

lemma two_and_empty_counts:
  "two_and_empty t bd (a, b, c) \<longleftrightarrow>
     ((of_bool (bd ! a = t) + of_bool (bd ! b = t) + of_bool (bd ! c = t) :: int) = 2
      \<and> (of_bool (bd ! a = 0) + of_bool (bd ! b = 0) + of_bool (bd ! c = 0) :: int) = 1)"
  unfolding two_and_empty_iff count_list_3_eq_2 count_list_3_eq_1 of_bool_sum_2 of_bool_sum_1
  by (rule refl)

lemma two_and_empty_has_empty:
  "two_and_empty t bd (a, b, c) \<Longrightarrow> bd ! a = 0 \<or> bd ! b = 0 \<or> bd ! c = 0"
  unfolding two_and_empty_iff count_list_3_eq_1 by blast

lemma two_and_empty_unique:
  assumes "two_and_empty t bd L" "on_line m L" "on_line k L" "bd ! m = 0" "bd ! k = 0"
  shows "k = m"
proof -
  obtain a b c where L: "L = (a, b, c)" by (cases L)
  from assms(1) have "count_list [bd ! a, bd ! b, bd ! c] 0 = 1"
    unfolding L two_and_empty_iff by simp
  then show ?thesis using assms(2-5) unfolding L count_list_3_eq_1 by auto
qed

section \<open>The rule evaluator\<close>

lemma CheckWinner_lines_zero:
  "CheckWinner_lines bd ls = 0 \<longleftrightarrow> (\<forall>L \<in> set ls. \<not> uniform_line bd L)"
  by (induction bd ls rule: CheckWinner_lines.induct) (auto simp: Let_def)

lemma CheckWinner_lines_mark:
  "CheckWinner_lines bd ls \<noteq> 0 \<Longrightarrow>
   \<exists>L \<in> set ls. line_cells bd L =
      [CheckWinner_lines bd ls, CheckWinner_lines bd ls, CheckWinner_lines bd ls]"
  by (induction bd ls rule: CheckWinner_lines.induct) (auto simp: Let_def split: if_splits)

lemma CheckWinner_zero: "CheckWinner bd = 0 \<longleftrightarrow> (\<forall>L \<in> set WINS. \<not> uniform_line bd L)"
  unfolding CheckWinner_def by (rule CheckWinner_lines_zero)

lemma CheckWinner_line_boards:
  "L \<in> set WINS \<Longrightarrow> M = 1 \<or> M = 2 \<Longrightarrow> CheckWinner (line_board L M) = M"
  by (auto simp add: WINS_def line_board_def CheckWinner_def eval_nat_numeral)

lemma CheckDraw_cells_iff: "CheckDraw_cells bd \<longleftrightarrow> 0 \<notin> set bd"
  by (induction bd) auto

lemma no_zero_iff: "length bd = 9 \<Longrightarrow> 0 \<notin> set bd \<longleftrightarrow> (\<forall>i<9. bd ! i \<noteq> 0)"
  by (metis in_set_conv_nth)

lemma CheckDraw_iff:
  "length bd = 9 \<Longrightarrow> CheckDraw bd \<longleftrightarrow> CheckWinner bd = 0 \<and> (\<forall>i<9. bd ! i \<noteq> 0)"
  using no_zero_iff [of bd] by (simp add: CheckDraw_def CheckDraw_cells_iff)

text \<open>
  C1: \<open>CheckWinner\<close> scans the eight lines of \<open>WINS\<close>; a non-zero result is the common
  value of the three cells of some line, the result is 0 exactly when no line is uniform
  and non-empty, and the board with one line set to X or to O and all else empty gives
  that mark.
\<close>

theorem CheckWinner_spec:
  "length WINS = 8
   \<and> (CheckWinner bd \<noteq> 0 \<longrightarrow>
        (\<exists>L \<in> set WINS. line_cells bd L = [CheckWinner bd, CheckWinner bd, CheckWinner bd]))
   \<and> (CheckWinner bd = 0 \<longleftrightarrow> (\<forall>L \<in> set WINS. \<not> uniform_line bd L))
   \<and> (\<forall>L \<in> set WINS. \<forall>M \<in> {1, 2}. CheckWinner (line_board L M) = M)"
proof -
  have "length WINS = 8" by (simp add: WINS_def)
  moreover have "CheckWinner bd \<noteq> 0 \<longrightarrow>
        (\<exists>L \<in> set WINS. line_cells bd L = [CheckWinner bd, CheckWinner bd, CheckWinner bd])"
    unfolding CheckWinner_def using CheckWinner_lines_mark by blast
  moreover have "CheckWinner bd = 0 \<longleftrightarrow> (\<forall>L \<in> set WINS. \<not> uniform_line bd L)"
    by (rule CheckWinner_zero)
  moreover have "\<forall>L \<in> set WINS. \<forall>M \<in> {1, 2}. CheckWinner (line_board L M) = M"
    using CheckWinner_line_boards by blast
  ultimately show ?thesis by blast
qed

theorem CheckWinner_spec_witness:
  "CheckWinner [1, 2, 0, 2, 1, 0, 0, 0, 1] = 1
   \<and> line_cells [1, 2, 0, 2, 1, 0, 0, 0, 1] (0, 4, 8) = [1, 1, 1]
   \<and> (0, 4, 8) \<in> set WINS
   \<and> CheckWinner [1, 2, 0, 2, 1, 0, 0, 0, 0] = 0
   \<and> CheckWinner (line_board (2, 4, 6) 2) = 2
   \<and> line_board (2, 4, 6) 2 = [0, 0, 2, 0, 2, 0, 2, 0, 0]"
proof -
  have in_wins: "(0, 4, 8) \<in> set WINS" "(2, 4, 6) \<in> set WINS" by (simp_all add: WINS_def)
  have no_line: "\<forall>L \<in> set WINS. \<not> uniform_line [1, 2, 0, 2, 1, 0, 0, 0, 0] L"
    by (simp add: WINS_def)
  have won: "CheckWinner [1, 2, 0, 2, 1, 0, 0, 0, 1] = 1"
    by (simp add: CheckWinner_def WINS_def)
  from CheckWinner_spec [of "[1, 2, 0, 2, 1, 0, 0, 0, 0]"] no_line
  have "CheckWinner [1, 2, 0, 2, 1, 0, 0, 0, 0] = 0" by blast
  moreover from CheckWinner_spec [of "[]"] in_wins
  have "CheckWinner (line_board (2, 4, 6) 2) = 2" by blast
  moreover have "line_board (2, 4, 6) 2 = [0, 0, 2, 0, 2, 0, 2, 0, 0]"
    by (simp add: line_board_def eval_nat_numeral)
  moreover have "line_cells [1, 2, 0, 2, 1, 0, 0, 0, 1] (0, 4, 8) = [1, 1, 1]" by simp
  ultimately show ?thesis using won in_wins by simp
qed

text \<open>
  C5: \<open>CheckDraw\<close> is true exactly when \<open>CheckWinner\<close> gives 0 and none of the nine
  cells is empty; so a full board without a uniform non-empty line is a draw with no
  winner.
\<close>

theorem CheckDraw_spec:
  assumes "length bd = 9"
  shows "(CheckDraw bd \<longleftrightarrow> CheckWinner bd = 0 \<and> (\<forall>i<9. bd ! i \<noteq> 0))
         \<and> ((\<forall>i<9. bd ! i \<noteq> 0) \<and> (\<forall>L \<in> set WINS. \<not> uniform_line bd L)
              \<longrightarrow> CheckDraw bd \<and> CheckWinner bd = 0)"
  using CheckDraw_iff [OF assms] CheckWinner_zero [of bd] by blast

theorem CheckDraw_spec_witness:
  "length [1, 2, 1, 1, 2, 2, 2, 1, 1 :: int] = 9
   \<and> CheckDraw [1, 2, 1, 1, 2, 2, 2, 1, 1]
   \<and> CheckWinner [1, 2, 1, 1, 2, 2, 2, 1, 1] = 0
   \<and> \<not> CheckDraw [1, 2, 1, 1, 2, 2, 0, 1, 1]
   \<and> \<not> CheckDraw [1, 1, 1, 2, 2, 1, 2, 1, 2]"
proof -
  let ?d = "[1, 2, 1, 1, 2, 2, 2, 1, 1 :: int]"
  have len: "length ?d = 9" by simp
  have full: "\<forall>i<9. ?d ! i \<noteq> 0" by (simp add: all_less_9)
  have nol: "\<forall>L \<in> set WINS. \<not> uniform_line ?d L" by (simp add: WINS_def)
  from CheckDraw_spec [OF len] full nol have a: "CheckDraw ?d \<and> CheckWinner ?d = 0" by blast
  have "\<not> (\<forall>i<9. [1, 2, 1, 1, 2, 2, 0, 1, 1 :: int] ! i \<noteq> 0)" by (simp add: all_less_9)
  with CheckDraw_spec [of "[1, 2, 1, 1, 2, 2, 0, 1, 1]"]
  have b: "\<not> CheckDraw [1, 2, 1, 1, 2, 2, 0, 1, 1]" by simp
  have "CheckWinner [1, 1, 1, 2, 2, 1, 2, 1, 2] \<noteq> 0" by (simp add: CheckWinner_def WINS_def)
  with CheckDraw_spec [of "[1, 1, 1, 2, 2, 1, 2, 1, 2]"]
  have c: "\<not> CheckDraw [1, 1, 1, 2, 2, 1, 2, 1, 2]" by simp
  from len a b c show ?thesis by blast
qed

section \<open>The opponent heuristic\<close>

lemma FindImmediateMove_lines_Cons:
  "FindImmediateMove_lines t bd ((a, b, c) # rest) =
     (if two_and_empty t bd (a, b, c) then
        (if bd ! a = 0 then Some a
         else if bd ! b = 0 then Some b
         else if bd ! c = 0 then Some c
         else FindImmediateMove_lines t bd rest)
      else FindImmediateMove_lines t bd rest)"
  by (simp only: FindImmediateMove_lines.simps Let_def two_and_empty_counts)

lemma FindImmediateMove_lines_None:
  "FindImmediateMove_lines t bd ls = None \<longleftrightarrow> (\<forall>L \<in> set ls. \<not> two_and_empty t bd L)"
proof (induction ls)
  case Nil
  show ?case by simp
next
  case (Cons L ls)
  obtain a b c where L: "L = (a, b, c)" by (cases L)
  show ?case
  proof (cases "two_and_empty t bd (a, b, c)")
    case True
    with two_and_empty_has_empty [OF True] show ?thesis
      unfolding L FindImmediateMove_lines_Cons by auto
  next
    case False
    with Cons.IH show ?thesis
      unfolding L FindImmediateMove_lines_Cons by simp
  qed
qed

lemma FindImmediateMove_lines_first:
  "find (two_and_empty t bd) ls = Some L \<Longrightarrow>
   \<exists>m. FindImmediateMove_lines t bd ls = Some m \<and> on_line m L \<and> bd ! m = 0"
proof (induction ls)
  case Nil
  then show ?case by simp
next
  case (Cons K ls)
  obtain a b c where K: "K = (a, b, c)" by (cases K)
  show ?case
  proof (cases "two_and_empty t bd (a, b, c)")
    case True
    with Cons.prems have "L = (a, b, c)" by (simp add: K)
    with True two_and_empty_has_empty [OF True] show ?thesis
      unfolding K FindImmediateMove_lines_Cons by auto
  next
    case False
    with Cons show ?thesis
      unfolding K FindImmediateMove_lines_Cons by simp
  qed
qed

lemma FindImmediateMove_None:
  "FindImmediateMove t bd = None \<longleftrightarrow> (\<forall>L \<in> set WINS. \<not> two_and_empty t bd L)"
  unfolding FindImmediateMove_def by (rule FindImmediateMove_lines_None)

lemma find_first_exists:
  "\<exists>L \<in> set ls. P L \<Longrightarrow> \<exists>L \<in> set ls. find P ls = Some L \<and> P L"
  by (induction ls) auto

lemma FindImmediateMove_Some:
  assumes "\<exists>L \<in> set WINS. two_and_empty t bd L"
  shows "\<exists>L \<in> set WINS. \<exists>m. find (two_and_empty t bd) WINS = Some L \<and> two_and_empty t bd L
            \<and> FindImmediateMove t bd = Some m \<and> on_line m L \<and> bd ! m = 0"
proof -
  from find_first_exists [OF assms] obtain L
    where L: "L \<in> set WINS" "find (two_and_empty t bd) WINS = Some L" "two_and_empty t bd L"
    by blast
  from FindImmediateMove_lines_first [OF L(2)] L show ?thesis
    unfolding FindImmediateMove_def by blast
qed

lemma on_WINS_less_9: "L \<in> set WINS \<Longrightarrow> on_line m L \<Longrightarrow> m < 9"
  by (auto simp: WINS_def)

lemma set_empty_cells: "set (empty_cells bd) = {i. i < 9 \<and> bd ! i = 0}"
  by (auto simp: empty_cells_def)

lemma empty_cells_Nil: "empty_cells bd = [] \<longleftrightarrow> (\<forall>i<9. bd ! i \<noteq> 0)"
proof -
  have "empty_cells bd = [] \<longleftrightarrow> set (empty_cells bd) = {}" by simp
  then show ?thesis unfolding set_empty_cells by auto
qed

lemma empty_cells_draw:
  assumes "empty_cells bd \<noteq> []"
  shows "empty_cells bd ! (rnd mod length (empty_cells bd)) < 9"
    and "bd ! (empty_cells bd ! (rnd mod length (empty_cells bd))) = 0"
proof -
  from assms have "rnd mod length (empty_cells bd) < length (empty_cells bd)" by simp
  then have "empty_cells bd ! (rnd mod length (empty_cells bd)) \<in> set (empty_cells bd)"
    by (rule nth_mem)
  then show "empty_cells bd ! (rnd mod length (empty_cells bd)) < 9"
    and "bd ! (empty_cells bd ! (rnd mod length (empty_cells bd))) = 0"
    unfolding set_empty_cells by simp_all
qed

lemma empty_cells_every:
  assumes "m < 9" "bd ! m = 0"
  shows "\<exists>r. empty_cells bd \<noteq> [] \<and> empty_cells bd ! (r mod length (empty_cells bd)) = m"
proof -
  from assms have "m \<in> set (empty_cells bd)" unfolding set_empty_cells by simp
  then obtain k where k: "k < length (empty_cells bd)" "empty_cells bd ! k = m"
    by (auto simp: in_set_conv_nth)
  then have "empty_cells bd \<noteq> [] \<and> empty_cells bd ! (k mod length (empty_cells bd)) = m"
    by auto
  then show ?thesis ..
qed

text \<open>The four ways \<open>AIMove_board\<close> can go.\<close>

lemma AIMove_board_win:
  assumes "\<exists>L \<in> set WINS. two_and_empty 2 bd L"
  shows "\<exists>L \<in> set WINS. \<exists>m. find (two_and_empty 2 bd) WINS = Some L \<and> two_and_empty 2 bd L
           \<and> on_line m L \<and> bd ! m = 0 \<and> AIMove_board rnd bd = bd[m := 2]"
proof -
  from FindImmediateMove_Some [OF assms] obtain L m
    where "L \<in> set WINS" "find (two_and_empty 2 bd) WINS = Some L" "two_and_empty 2 bd L"
      "FindImmediateMove 2 bd = Some m" "on_line m L" "bd ! m = 0"
    by blast
  moreover from this have "AIMove_board rnd bd = bd[m := 2]"
    by (simp add: AIMove_board_def)
  ultimately show ?thesis by blast
qed

lemma AIMove_board_block:
  assumes "\<not> (\<exists>L \<in> set WINS. two_and_empty 2 bd L)" "\<exists>L \<in> set WINS. two_and_empty 1 bd L"
  shows "\<exists>L \<in> set WINS. \<exists>m. find (two_and_empty 1 bd) WINS = Some L \<and> two_and_empty 1 bd L
           \<and> on_line m L \<and> bd ! m = 0 \<and> AIMove_board rnd bd = bd[m := 2]"
proof -
  from assms(1) have none: "FindImmediateMove 2 bd = None"
    by (simp add: FindImmediateMove_None)
  from FindImmediateMove_Some [OF assms(2)] obtain L m
    where "L \<in> set WINS" "find (two_and_empty 1 bd) WINS = Some L" "two_and_empty 1 bd L"
      "FindImmediateMove 1 bd = Some m" "on_line m L" "bd ! m = 0"
    by blast
  moreover from this none have "AIMove_board rnd bd = bd[m := 2]"
    by (simp add: AIMove_board_def)
  ultimately show ?thesis by blast
qed

lemma AIMove_board_random:
  assumes "\<not> (\<exists>L \<in> set WINS. two_and_empty 2 bd L)" "\<not> (\<exists>L \<in> set WINS. two_and_empty 1 bd L)"
  shows "AIMove_board rnd bd =
           (if empty_cells bd \<noteq> []
            then bd[empty_cells bd ! (rnd mod length (empty_cells bd)) := 2] else bd)"
proof -
  from assms have "FindImmediateMove 2 bd = None" "FindImmediateMove 1 bd = None"
    by (simp_all add: FindImmediateMove_None)
  then show ?thesis by (simp add: AIMove_board_def Let_def)
qed

lemma AIMove_board_cases:
  "AIMove_board rnd bd = bd \<or> (\<exists>m<9. bd ! m = 0 \<and> AIMove_board rnd bd = bd[m := 2])"
proof (cases "\<exists>L \<in> set WINS. two_and_empty 2 bd L")
  case True
  from AIMove_board_win [OF True, of rnd] on_WINS_less_9 show ?thesis by blast
next
  case no_win: False
  show ?thesis
  proof (cases "\<exists>L \<in> set WINS. two_and_empty 1 bd L")
    case True
    from AIMove_board_block [OF no_win True, of rnd] on_WINS_less_9 show ?thesis by blast
  next
    case False
    show ?thesis
      using AIMove_board_random [OF no_win False, of rnd] empty_cells_draw [of bd rnd]
      by (cases "empty_cells bd = []") auto
  qed
qed

lemma AIMove_board_full:
  assumes "\<forall>i<9. bd ! i \<noteq> 0"
  shows "AIMove_board rnd bd = bd"
  using AIMove_board_cases [of rnd bd] assms by auto

lemma AIMove_board_length: "length (AIMove_board rnd bd) = length bd"
  using AIMove_board_cases [of rnd bd] by auto

lemma AIMove_over: "gameOver s \<Longrightarrow> AIMove rnd s = s"
  by (simp add: AIMove_def)

lemma AIMove_fields:
  assumes "\<not> gameOver s"
  shows "board (AIMove rnd s) = AIMove_board rnd (board s)"
    and "winner (AIMove rnd s) = CheckWinner (AIMove_board rnd (board s))"
    and "gameOver (AIMove rnd s) \<longleftrightarrow>
           CheckWinner (AIMove_board rnd (board s)) \<noteq> 0 \<or> CheckDraw (AIMove_board rnd (board s))"
    and "\<not> gameOver (AIMove rnd s) \<Longrightarrow> currentPlayer (AIMove rnd s) = 1"
    and "aiEnabled (AIMove rnd s) = aiEnabled s"
  using assms by (simp_all add: AIMove_def Let_def)

lemma complete_line:
  assumes "L \<in> set WINS" "two_and_empty 2 bd L" "on_line m L" "bd ! m = 0" "length bd = 9"
  shows "line_cells (bd[m := 2]) L = [2, 2, 2]"
proof -
  obtain a b c where L: "L = (a, b, c)" by (cases L)
  from assms(1) on_WINS_less_9 [of L] assms(5) have lt: "a < length bd" "b < length bd" "c < length bd"
    unfolding L by simp_all
  from assms(2) have cnt: "count_list [bd ! a, bd ! b, bd ! c] 2 = 2"
    unfolding L two_and_empty_iff by simp
  from assms(3) have m: "m = a \<or> m = b \<or> m = c" unfolding L by simp
  from cnt [unfolded count_list_3_eq_2] m assms(4) lt show ?thesis
    unfolding L by (auto simp: nth_list_update)
qed

lemma uniform_line_cells:
  "v \<noteq> 0 \<Longrightarrow> line_cells bd L = [v, v, v] \<Longrightarrow> uniform_line bd L"
  by (cases L) simp

lemma CheckWinner_after_win:
  assumes "L \<in> set WINS" "line_cells (bd[m := 2]) L = [2, 2, 2]" "CheckWinner bd = 0"
    "m < length bd"
  shows "CheckWinner (bd[m := 2]) = 2"
proof -
  let ?bd = "bd[m := 2]"
  from assms(1,2) have "\<exists>L \<in> set WINS. uniform_line ?bd L"
    using uniform_line_cells [of 2 ?bd L] by auto
  then have nz: "CheckWinner ?bd \<noteq> 0" by (simp add: CheckWinner_zero)
  then obtain K where K: "K \<in> set WINS"
      "line_cells ?bd K = [CheckWinner ?bd, CheckWinner ?bd, CheckWinner ?bd]"
    unfolding CheckWinner_def using CheckWinner_lines_mark by blast
  obtain a b c where Kabc: "K = (a, b, c)" by (cases K)
  show ?thesis
  proof (rule ccontr)
    assume ne: "CheckWinner ?bd \<noteq> 2"
    from K(2) have eq: "?bd ! a = CheckWinner ?bd" "?bd ! b = CheckWinner ?bd" "?bd ! c = CheckWinner ?bd"
      unfolding Kabc by simp_all
    from eq ne assms(4) have "a \<noteq> m" "b \<noteq> m" "c \<noteq> m" by auto
    with eq have "bd ! a = CheckWinner ?bd" "bd ! b = CheckWinner ?bd" "bd ! c = CheckWinner ?bd"
      by simp_all
    with nz have "uniform_line bd K" unfolding Kabc by simp
    with K(1) assms(3) show False by (simp add: CheckWinner_zero)
  qed
qed

lemma find_Some_member: "find P ls = Some L \<Longrightarrow> L \<in> set ls \<and> P L"
  by (induction ls) (auto split: if_splits)

lemma WINS_order:
  "WINS = map row_line [0..<3] @ map column_line [0..<3] @ diagonal_lines"
  by (simp add: WINS_def row_line_def column_line_def diagonal_lines_def upt_rec)

text \<open>
  C2: in a game that is not over, \<open>AIMove\<close> follows a strict priority. If some line
  has exactly two O and one empty cell, O goes into the empty cell of such a line,
  whatever X has elsewhere, and that line is then all O. Else, if some line has
  exactly two X and one empty cell, O goes into the empty cell of such a line. Else, if
  the board has an empty cell, O goes into one of the empty cells, and each of them is
  chosen for some draw. Whatever the tier, a mark is only ever placed in a cell that
  was empty.
\<close>

theorem AIMove_priority:
  assumes "length (board s) = 9" and "\<not> gameOver s"
  shows "((\<exists>L \<in> set WINS. two_and_empty 2 (board s) L) \<longrightarrow>
            (\<exists>L \<in> set WINS. \<exists>m. two_and_empty 2 (board s) L \<and> on_line m L \<and> board s ! m = 0
               \<and> board (AIMove rnd s) = (board s)[m := 2]
               \<and> line_cells (board (AIMove rnd s)) L = [2, 2, 2]
               \<and> gameOver (AIMove rnd s)
               \<and> (CheckWinner (board s) = 0 \<longrightarrow> winner (AIMove rnd s) = 2)))
       \<and> (\<not> (\<exists>L \<in> set WINS. two_and_empty 2 (board s) L)
            \<and> (\<exists>L \<in> set WINS. two_and_empty 1 (board s) L) \<longrightarrow>
            (\<exists>L \<in> set WINS. \<exists>m. two_and_empty 1 (board s) L \<and> on_line m L \<and> board s ! m = 0
               \<and> board (AIMove rnd s) = (board s)[m := 2]))
       \<and> (\<not> (\<exists>L \<in> set WINS. two_and_empty 2 (board s) L)
            \<and> \<not> (\<exists>L \<in> set WINS. two_and_empty 1 (board s) L) \<longrightarrow>
            ((\<exists>i<9. board s ! i = 0) \<longrightarrow>
               (\<exists>m<9. board s ! m = 0 \<and> board (AIMove rnd s) = (board s)[m := 2]))
            \<and> (\<forall>m<9. board s ! m = 0 \<longrightarrow> (\<exists>r. board (AIMove r s) = (board s)[m := 2])))
       \<and> (board (AIMove rnd s) = board s
            \<or> (\<exists>m<9. board s ! m = 0 \<and> board (AIMove rnd s) = (board s)[m := 2]))"
proof -
  let ?bd = "board s"
  note f = AIMove_fields [OF assms(2)]
  have win: "\<exists>L \<in> set WINS. \<exists>m. two_and_empty 2 ?bd L \<and> on_line m L \<and> ?bd ! m = 0
               \<and> board (AIMove rnd s) = ?bd[m := 2]
               \<and> line_cells (board (AIMove rnd s)) L = [2, 2, 2]
               \<and> gameOver (AIMove rnd s)
               \<and> (CheckWinner ?bd = 0 \<longrightarrow> winner (AIMove rnd s) = 2)"
    if w: "\<exists>L \<in> set WINS. two_and_empty 2 ?bd L"
  proof -
    from AIMove_board_win [OF w, of rnd] obtain L m
      where L: "L \<in> set WINS" "two_and_empty 2 ?bd L" "on_line m L" "?bd ! m = 0"
        and b: "AIMove_board rnd ?bd = ?bd[m := 2]"
      by blast
    from complete_line [OF L assms(1)] have c: "line_cells (?bd[m := 2]) L = [2, 2, 2]" .
    from on_WINS_less_9 [OF L(1) L(3)] assms(1) have m: "m < length ?bd" by simp
    from c L(1) have "\<exists>L \<in> set WINS. uniform_line (?bd[m := 2]) L"
      using uniform_line_cells [of 2 "?bd[m := 2]" L] by auto
    then have "CheckWinner (?bd[m := 2]) \<noteq> 0" by (simp add: CheckWinner_zero)
    then have over: "gameOver (AIMove rnd s)" by (simp add: f(3) b)
    have "CheckWinner ?bd = 0 \<longrightarrow> winner (AIMove rnd s) = 2"
      using CheckWinner_after_win [OF L(1) c _ m] by (simp add: f(2) b)
    with L b c over show ?thesis unfolding f(1) by auto
  qed
  have block: "\<exists>L \<in> set WINS. \<exists>m. two_and_empty 1 ?bd L \<and> on_line m L \<and> ?bd ! m = 0
               \<and> board (AIMove rnd s) = ?bd[m := 2]"
    if "\<not> (\<exists>L \<in> set WINS. two_and_empty 2 ?bd L)" "\<exists>L \<in> set WINS. two_and_empty 1 ?bd L"
    using AIMove_board_block [OF that, of rnd] unfolding f(1) by blast
  have rand1: "\<exists>m<9. ?bd ! m = 0 \<and> board (AIMove rnd s) = ?bd[m := 2]"
    if n: "\<not> (\<exists>L \<in> set WINS. two_and_empty 2 ?bd L)" "\<not> (\<exists>L \<in> set WINS. two_and_empty 1 ?bd L)"
      and e: "\<exists>i<9. ?bd ! i = 0"
  proof -
    from e have ne: "empty_cells ?bd \<noteq> []" by (simp add: empty_cells_Nil)
    from empty_cells_draw [OF ne, of rnd] AIMove_board_random [OF n, of rnd] ne
    show ?thesis unfolding f(1) by auto
  qed
  have rand2: "\<exists>r. board (AIMove r s) = ?bd[m := 2]"
    if n: "\<not> (\<exists>L \<in> set WINS. two_and_empty 2 ?bd L)" "\<not> (\<exists>L \<in> set WINS. two_and_empty 1 ?bd L)"
      and m: "m < 9" "?bd ! m = 0" for m
  proof -
    from empty_cells_every [OF m] obtain r
      where "empty_cells ?bd \<noteq> []" "empty_cells ?bd ! (r mod length (empty_cells ?bd)) = m"
      by blast
    with AIMove_board_random [OF n, of r] have "AIMove_board r ?bd = ?bd[m := 2]" by simp
    then have "board (AIMove r s) = ?bd[m := 2]"
      using AIMove_fields(1) [OF assms(2), of r] by simp
    then show ?thesis ..
  qed
  have any: "board (AIMove rnd s) = ?bd
            \<or> (\<exists>m<9. ?bd ! m = 0 \<and> board (AIMove rnd s) = ?bd[m := 2])"
    using AIMove_board_cases [of rnd ?bd] unfolding f(1) .
  from win block rand1 rand2 any show ?thesis by blast
qed

theorem AIMove_priority_witness:
  "length (board \<lparr>board = [2, 2, 0, 1, 1, 0, 0, 0, 0], currentPlayer = 2, gameOver = False,
                   winner = 0, aiEnabled = True\<rparr>) = 9
   \<and> two_and_empty 2 [2, 2, 0, 1, 1, 0, 0, 0, 0] (0, 1, 2)
   \<and> two_and_empty 1 [2, 2, 0, 1, 1, 0, 0, 0, 0] (3, 4, 5)
   \<and> (\<exists>L \<in> set WINS. \<exists>m. two_and_empty 2 [2, 2, 0, 1, 1, 0, 0, 0, 0] L \<and> on_line m L
         \<and> board (AIMove 7 \<lparr>board = [2, 2, 0, 1, 1, 0, 0, 0, 0], currentPlayer = 2,
                             gameOver = False, winner = 0, aiEnabled = True\<rparr>)
            = [2, 2, 0, 1, 1, 0, 0, 0, 0][m := 2])
   \<and> board (AIMove 7 \<lparr>board = [2, 2, 0, 1, 1, 0, 0, 0, 0], currentPlayer = 2,
                        gameOver = False, winner = 0, aiEnabled = True\<rparr>)
        = [2, 2, 2, 1, 1, 0, 0, 0, 0]
   \<and> board (AIMove 7 \<lparr>board = [1, 1, 0, 2, 0, 0, 0, 0, 0], currentPlayer = 2,
                        gameOver = False, winner = 0, aiEnabled = True\<rparr>)
        = [1, 1, 2, 2, 0, 0, 0, 0, 0]
   \<and> board (AIMove 3 \<lparr>board = [1, 0, 0, 0, 0, 0, 0, 0, 0], currentPlayer = 2,
                        gameOver = False, winner = 0, aiEnabled = True\<rparr>)
        = [1, 0, 0, 0, 2, 0, 0, 0, 0]"
proof -
  let ?s = "\<lparr>board = [2, 2, 0, 1, 1, 0, 0, 0, 0], currentPlayer = 2, gameOver = False,
             winner = 0, aiEnabled = True\<rparr>"
  have len: "length (board ?s) = 9" by simp
  have go: "\<not> gameOver ?s" by simp
  have o2: "two_and_empty 2 [2, 2, 0, 1, 1, 0, 0, 0, 0] (0, 1, 2)"
    by (simp add: two_and_empty_def)
  have x2: "two_and_empty 1 [2, 2, 0, 1, 1, 0, 0, 0, 0] (3, 4, 5)"
    by (simp add: two_and_empty_def)
  have "(0, 1, 2) \<in> set WINS" by (simp add: WINS_def)
  with o2 have ex: "\<exists>L \<in> set WINS. two_and_empty 2 (board ?s) L" by auto
  from AIMove_priority [OF len go, of 7] ex
  have a: "\<exists>L \<in> set WINS. \<exists>m. two_and_empty 2 [2, 2, 0, 1, 1, 0, 0, 0, 0] L \<and> on_line m L
         \<and> board (AIMove 7 ?s) = [2, 2, 0, 1, 1, 0, 0, 0, 0][m := 2]"
    by (simp only: select_convs) blast
  have b: "board (AIMove 7 ?s) = [2, 2, 2, 1, 1, 0, 0, 0, 0]" by code_simp
  have c: "board (AIMove 7 \<lparr>board = [1, 1, 0, 2, 0, 0, 0, 0, 0], currentPlayer = 2,
                        gameOver = False, winner = 0, aiEnabled = True\<rparr>)
        = [1, 1, 2, 2, 0, 0, 0, 0, 0]" by code_simp
  have d: "board (AIMove 3 \<lparr>board = [1, 0, 0, 0, 0, 0, 0, 0, 0], currentPlayer = 2,
                        gameOver = False, winner = 0, aiEnabled = True\<rparr>)
        = [1, 0, 0, 0, 2, 0, 0, 0, 0]" by code_simp
  from len o2 x2 a b c d show ?thesis by blast
qed

text \<open>
  C8: \<open>WINS\<close> lists the three rows, then the three columns, then the two diagonals.
  \<open>FindImmediateMove\<close> answers for the first line in that order that has exactly two
  cells of the target and one empty cell, and gives the one empty cell of that line;
  \<open>AIMove\<close> puts O there in the win tier and in the block tier, and in these two tiers
  its result does not depend on the random draw.
\<close>

theorem FindImmediateMove_first_line:
  "WINS = map row_line [0..<3] @ map column_line [0..<3] @ diagonal_lines
   \<and> (find (two_and_empty t bd) WINS = None \<longrightarrow> FindImmediateMove t bd = None)
   \<and> (\<forall>L. find (two_and_empty t bd) WINS = Some L \<longrightarrow>
         (\<exists>m. FindImmediateMove t bd = Some m \<and> on_line m L \<and> bd ! m = 0
              \<and> (\<forall>k. on_line k L \<and> bd ! k = 0 \<longrightarrow> k = m)))
   \<and> (\<not> gameOver s \<longrightarrow>
        (\<forall>L. find (two_and_empty 2 (board s)) WINS = Some L \<longrightarrow>
           (\<exists>m. on_line m L \<and> board s ! m = 0 \<and> board (AIMove r s) = (board s)[m := 2]))
        \<and> (find (two_and_empty 2 (board s)) WINS = None \<longrightarrow>
            (\<forall>L. find (two_and_empty 1 (board s)) WINS = Some L \<longrightarrow>
              (\<exists>m. on_line m L \<and> board s ! m = 0 \<and> board (AIMove r s) = (board s)[m := 2]))))
   \<and> ((\<exists>L \<in> set WINS. two_and_empty 2 (board s) L \<or> two_and_empty 1 (board s) L) \<longrightarrow>
        AIMove r s = AIMove r' s)"
proof -
  have none: "FindImmediateMove t bd = None" if "find (two_and_empty t bd) WINS = None"
    using that by (auto simp: FindImmediateMove_None find_None_iff)
  have some: "\<exists>m. FindImmediateMove t bd = Some m \<and> on_line m L \<and> bd ! m = 0
              \<and> (\<forall>k. on_line k L \<and> bd ! k = 0 \<longrightarrow> k = m)"
    if fi: "find (two_and_empty t bd) WINS = Some L" for L
  proof -
    from find_Some_member [OF fi] have q: "two_and_empty t bd L" by simp
    from FindImmediateMove_lines_first [OF fi] obtain m
      where m: "FindImmediateMove t bd = Some m" "on_line m L" "bd ! m = 0"
      unfolding FindImmediateMove_def by blast
    with two_and_empty_unique [OF q m(2) _ m(3)] show ?thesis by blast
  qed
  have tier1: "\<exists>m. on_line m L \<and> board s ! m = 0 \<and> board (AIMove r s) = (board s)[m := 2]"
    if g: "\<not> gameOver s" and fi: "find (two_and_empty 2 (board s)) WINS = Some L" for L
  proof -
    from find_Some_member [OF fi] have "\<exists>L \<in> set WINS. two_and_empty 2 (board s) L"
      by blast
    from AIMove_board_win [OF this, of r] fi show ?thesis
      unfolding AIMove_fields(1) [OF g] by auto
  qed
  have tier2: "\<exists>m. on_line m L \<and> board s ! m = 0 \<and> board (AIMove r s) = (board s)[m := 2]"
    if g: "\<not> gameOver s" and n: "find (two_and_empty 2 (board s)) WINS = None"
      and fi: "find (two_and_empty 1 (board s)) WINS = Some L" for L
  proof -
    from n have no: "\<not> (\<exists>L \<in> set WINS. two_and_empty 2 (board s) L)"
      by (auto simp: find_None_iff)
    from find_Some_member [OF fi] have "\<exists>L \<in> set WINS. two_and_empty 1 (board s) L"
      by blast
    from AIMove_board_block [OF no this, of r] fi show ?thesis
      unfolding AIMove_fields(1) [OF g] by auto
  qed
  have det: "AIMove r s = AIMove r' s"
    if "\<exists>L \<in> set WINS. two_and_empty 2 (board s) L \<or> two_and_empty 1 (board s) L"
  proof -
    from that have "FindImmediateMove 2 (board s) \<noteq> None \<or> FindImmediateMove 1 (board s) \<noteq> None"
      by (auto simp: FindImmediateMove_None)
    then have "AIMove_board r (board s) = AIMove_board r' (board s)"
      by (auto simp: AIMove_board_def split: option.splits)
    then show ?thesis by (simp add: AIMove_def)
  qed
  from WINS_order none some tier1 tier2 det show ?thesis by blast
qed

theorem FindImmediateMove_first_line_witness:
  "find (two_and_empty 2 [2, 0, 2, 0, 2, 0, 0, 0, 0]) WINS = Some (0, 1, 2)
   \<and> two_and_empty 2 [2, 0, 2, 0, 2, 0, 0, 0, 0] (0, 4, 8)
   \<and> two_and_empty 2 [2, 0, 2, 0, 2, 0, 0, 0, 0] (2, 4, 6)
   \<and> FindImmediateMove 2 [2, 0, 2, 0, 2, 0, 0, 0, 0] = Some 1
   \<and> board (AIMove 0 \<lparr>board = [2, 0, 2, 0, 2, 0, 0, 0, 0], currentPlayer = 2,
                        gameOver = False, winner = 0, aiEnabled = True\<rparr>)
       = [2, 2, 2, 0, 2, 0, 0, 0, 0]
   \<and> AIMove 0 \<lparr>board = [2, 0, 2, 0, 2, 0, 0, 0, 0], currentPlayer = 2,
                 gameOver = False, winner = 0, aiEnabled = True\<rparr>
       = AIMove 5 \<lparr>board = [2, 0, 2, 0, 2, 0, 0, 0, 0], currentPlayer = 2,
                    gameOver = False, winner = 0, aiEnabled = True\<rparr>"
proof -
  let ?bd = "[2, 0, 2, 0, 2, 0, 0, 0, 0] :: int list"
  let ?s = "\<lparr>board = ?bd, currentPlayer = 2, gameOver = False, winner = 0, aiEnabled = True\<rparr>"
  note th = FindImmediateMove_first_line [of 2 ?bd ?s 0 5]
  have fi: "find (two_and_empty 2 ?bd) WINS = Some (0, 1, 2)"
    by (simp add: WINS_def two_and_empty_def)
  have q: "two_and_empty 2 ?bd (0, 4, 8)" "two_and_empty 2 ?bd (2, 4, 6)"
    by (simp_all add: two_and_empty_def)
  from th fi obtain m where m: "FindImmediateMove 2 ?bd = Some m" "on_line m (0, 1, 2)" "?bd ! m = 0"
    by blast
  from m(2,3) have "m = 1" by auto
  with m(1) have fm: "FindImmediateMove 2 ?bd = Some 1" by simp
  have "\<not> gameOver ?s" and bs: "board ?s = ?bd" by simp_all
  with th fi obtain k where k: "on_line k (0, 1, 2)" "?bd ! k = 0"
      "board (AIMove 0 ?s) = ?bd[k := 2]"
    by (simp only: bs) blast
  from k(1,2) have "k = 1" by auto
  with k(3) have bd': "board (AIMove 0 ?s) = [2, 2, 2, 0, 2, 0, 0, 0, 0]" by simp
  have "(0, 4, 8) \<in> set WINS" by (simp add: WINS_def)
  with q(1) have "\<exists>L \<in> set WINS. two_and_empty 2 (board ?s) L \<or> two_and_empty 1 (board ?s) L"
    by (simp only: bs) blast
  with th have det: "AIMove 0 ?s = AIMove 5 ?s" by blast
  from fi q fm bd' det show ?thesis by blast
qed

text \<open>
  C9: when none of the nine cells is empty, \<open>AIMove\<close> leaves the board as it is.
\<close>

theorem AIMove_full_board:
  assumes "\<forall>i<9. board s ! i \<noteq> 0"
  shows "board (AIMove rnd s) = board s"
proof (cases "gameOver s")
  case True
  then show ?thesis by (simp add: AIMove_over)
next
  case False
  from AIMove_board_full [OF assms] show ?thesis
    unfolding AIMove_fields(1) [OF False] .
qed

theorem AIMove_full_board_witness:
  "board (AIMove 4 \<lparr>board = [1, 2, 1, 1, 2, 2, 2, 1, 1], currentPlayer = 2,
                     gameOver = False, winner = 0, aiEnabled = True\<rparr>)
     = [1, 2, 1, 1, 2, 2, 2, 1, 1]
   \<and> 0 \<notin> set [1, 2, 1, 1, 2, 2, 2, 1, 1 :: int]"
proof -
  let ?s = "\<lparr>board = [1, 2, 1, 1, 2, 2, 2, 1, 1], currentPlayer = 2,
             gameOver = False, winner = 0, aiEnabled = True\<rparr>"
  have full: "\<forall>i<9. board ?s ! i \<noteq> 0" by (simp add: all_less_9)
  from AIMove_full_board [OF full, of 4] show ?thesis by simp
qed

section \<open>The turn controller\<close>

lemma marks_update:
  "i < length bd \<Longrightarrow> bd ! i = 0 \<Longrightarrow> v \<noteq> 0 \<Longrightarrow> marks (bd[i := v]) = Suc (marks bd)"
  unfolding marks_def
proof (induction bd arbitrary: i)
  case Nil
  then show ?case by simp
next
  case (Cons x xs)
  then show ?case by (cases i) simp_all
qed

lemma AIMove_board_places:
  assumes "\<exists>i<9. bd ! i = 0"
  shows "\<exists>m<9. bd ! m = 0 \<and> AIMove_board rnd bd = bd[m := 2]"
proof (cases "\<exists>L \<in> set WINS. two_and_empty 2 bd L")
  case True
  from AIMove_board_win [OF True, of rnd] on_WINS_less_9 show ?thesis by blast
next
  case no_win: False
  show ?thesis
  proof (cases "\<exists>L \<in> set WINS. two_and_empty 1 bd L")
    case True
    from AIMove_board_block [OF no_win True, of rnd] on_WINS_less_9 show ?thesis by blast
  next
    case False
    from assms have ne: "empty_cells bd \<noteq> []" by (simp add: empty_cells_Nil)
    from empty_cells_draw [OF ne, of rnd] AIMove_board_random [OF no_win False, of rnd] ne
    show ?thesis by auto
  qed
qed

lemma apply_move_continue:
  assumes "CheckWinner ((board s)[idx := currentPlayer s]) = 0"
    and "\<not> CheckDraw ((board s)[idx := currentPlayer s])"
    and "aiEnabled s"
  shows "apply_move idx rnd s =
           AIMove rnd (s\<lparr>board := (board s)[idx := currentPlayer s], winner := 0,
                          gameOver := False, currentPlayer := 2\<rparr>)"
  using assms by (simp add: apply_move_def Let_def)

text \<open>
  C6: with the AI enabled, a click on an enabled cell (so X is to move and the cell is
  empty) whose X mark does not end the game is answered in the same call: the board
  afterwards is the old board with X in the clicked cell and O in one other cell that
  was empty, two marks more than before, and if the game is not over it is X's turn.
\<close>

theorem click_cell_answers:
  assumes "length (board s) = 9" and "idx < 9" and "aiEnabled s" and "\<not> disabled idx s"
    and "CheckWinner ((board s)[idx := 1]) = 0" and "\<not> CheckDraw ((board s)[idx := 1])"
  shows "(\<exists>m<9. m \<noteq> idx \<and> board s ! m = 0
            \<and> board (click_cell idx rnd s) = (board s)[idx := 1, m := 2])
         \<and> marks (board (click_cell idx rnd s)) = marks (board s) + 2
         \<and> (\<not> gameOver (click_cell idx rnd s) \<longrightarrow> currentPlayer (click_cell idx rnd s) = 1)"
proof -
  let ?bd = "(board s)[idx := 1]"
  let ?s1 = "s\<lparr>board := ?bd, winner := 0, gameOver := False, currentPlayer := 2\<rparr>"
  from assms(3,4) have cp: "currentPlayer s = 1" and e: "board s ! idx = 0"
    by (simp_all add: disabled_def)
  from assms(4) have am: "click_cell idx rnd s = apply_move idx rnd s"
    by (simp add: click_cell_def DrawBoardUI_cell_def Button_def)
  from apply_move_continue [of s idx rnd] assms(3,5,6) cp
  have pm: "apply_move idx rnd s = AIMove rnd ?s1" by simp
  have g1: "\<not> gameOver ?s1" by simp
  have len: "length ?bd = 9" using assms(1) by simp
  from assms(5,6) CheckDraw_iff [OF len] have "\<exists>i<9. ?bd ! i = 0" by auto
  from AIMove_board_places [OF this, of rnd] obtain m
    where m: "m < 9" "?bd ! m = 0" "AIMove_board rnd ?bd = ?bd[m := 2]"
    by blast
  from m(2) assms(1,2) have ne: "m \<noteq> idx" by auto
  with m(2) have e2: "board s ! m = 0" by simp
  have bd': "board (click_cell idx rnd s) = (board s)[idx := 1, m := 2]"
    unfolding am pm AIMove_fields(1) [OF g1] using m(3) by simp
  have "marks ?bd = Suc (marks (board s))"
    using marks_update [of idx "board s" 1] assms(1,2) e by simp
  moreover have "marks (?bd[m := 2]) = Suc (marks ?bd)"
    using marks_update [of m ?bd 2] len m(1,2) by simp
  ultimately have mk: "marks (board (click_cell idx rnd s)) = marks (board s) + 2"
    unfolding bd' by simp
  have turn: "\<not> gameOver (click_cell idx rnd s) \<longrightarrow> currentPlayer (click_cell idx rnd s) = 1"
    unfolding am pm using AIMove_fields(4) [OF g1, of rnd] by blast
  from m(1) ne e2 bd' mk turn show ?thesis by blast
qed

theorem click_cell_answers_witness:
  "length (board initial) = 9 \<and> aiEnabled initial \<and> \<not> disabled 0 initial
   \<and> CheckWinner ((board initial)[0 := 1]) = 0 \<and> \<not> CheckDraw ((board initial)[0 := 1])
   \<and> board (click_cell 0 3 initial) = [1, 0, 0, 0, 2, 0, 0, 0, 0]
   \<and> marks (board initial) = 0
   \<and> marks (board (click_cell 0 3 initial)) = 2
   \<and> \<not> gameOver (click_cell 0 3 initial)
   \<and> currentPlayer (click_cell 0 3 initial) = 1"
proof -
  have len: "length (board initial) = 9" by (simp add: initial_def)
  have ai: "aiEnabled initial" by (simp add: initial_def)
  have nd: "\<not> disabled 0 initial" by code_simp
  have w: "CheckWinner ((board initial)[0 := 1]) = 0" by code_simp
  have d: "\<not> CheckDraw ((board initial)[0 := 1])" by code_simp
  have m0: "marks (board initial) = 0" by code_simp
  have go: "\<not> gameOver (click_cell 0 3 initial)" by code_simp
  have b: "board (click_cell 0 3 initial) = [1, 0, 0, 0, 2, 0, 0, 0, 0]" by code_simp
  from click_cell_answers [OF len _ ai nd w d, of 3] m0 go
  have "marks (board (click_cell 0 3 initial)) = 2 \<and> currentPlayer (click_cell 0 3 initial) = 1"
    by simp
  with len ai nd w d b m0 go show ?thesis by blast
qed

text \<open>
  C4, as stated, fails: the handler of a move intent has no guard of its own. Applied
  to an occupied cell it overwrites the mark, and applied to a finished game it writes
  the cell all the same, so an illegal move intent, once applied, does not leave the
  game state unchanged.
\<close>

theorem apply_move_illegal_counterexample:
  "board \<lparr>board = [1, 0, 0, 0, 2, 0, 0, 0, 0], currentPlayer = 1, gameOver = False,
          winner = 0, aiEnabled = False\<rparr> ! 4 = 2
   \<and> board (apply_move 4 0 \<lparr>board = [1, 0, 0, 0, 2, 0, 0, 0, 0], currentPlayer = 1,
                             gameOver = False, winner = 0, aiEnabled = False\<rparr>)
       = [1, 0, 0, 0, 1, 0, 0, 0, 0]
   \<and> gameOver \<lparr>board = [1, 1, 1, 0, 2, 2, 0, 0, 0], currentPlayer = 2, gameOver = True,
               winner = 1, aiEnabled = False\<rparr>
   \<and> board (apply_move 3 0 \<lparr>board = [1, 1, 1, 0, 2, 2, 0, 0, 0], currentPlayer = 2,
                             gameOver = True, winner = 1, aiEnabled = False\<rparr>)
       = [1, 1, 1, 2, 2, 2, 0, 0, 0]"
proof -
  have "board (apply_move 4 0 \<lparr>board = [1, 0, 0, 0, 2, 0, 0, 0, 0], currentPlayer = 1,
                             gameOver = False, winner = 0, aiEnabled = False\<rparr>)
       = [1, 0, 0, 0, 1, 0, 0, 0, 0]"
    by code_simp
  moreover have "board (apply_move 3 0 \<lparr>board = [1, 1, 1, 0, 2, 2, 0, 0, 0], currentPlayer = 2,
                             gameOver = True, winner = 1, aiEnabled = False\<rparr>)
       = [1, 1, 1, 2, 2, 2, 0, 0, 0]"
    by code_simp
  ultimately show ?thesis by simp
qed

text \<open>
  C4, as the code has it: a click on a cell while the game is over, or on a cell that
  is not empty, leaves the whole game state as it was, because the button of that cell
  is disabled and the handler of the move intent does not run.
\<close>

theorem click_cell_illegal:
  assumes "gameOver s \<or> board s ! idx \<noteq> 0"
  shows "click_cell idx rnd s = s"
  using assms by (auto simp: click_cell_def DrawBoardUI_cell_def Button_def disabled_def)

theorem click_cell_illegal_witness:
  "gameOver \<lparr>board = [1, 1, 1, 0, 2, 2, 0, 0, 0], currentPlayer = 1, gameOver = True,
             winner = 1, aiEnabled = False\<rparr>
   \<and> click_cell 3 0 \<lparr>board = [1, 1, 1, 0, 2, 2, 0, 0, 0], currentPlayer = 1, gameOver = True,
                      winner = 1, aiEnabled = False\<rparr>
      = \<lparr>board = [1, 1, 1, 0, 2, 2, 0, 0, 0], currentPlayer = 1, gameOver = True,
         winner = 1, aiEnabled = False\<rparr>
   \<and> board \<lparr>board = [1, 0, 0, 0, 2, 0, 0, 0, 0], currentPlayer = 1, gameOver = False,
            winner = 0, aiEnabled = True\<rparr> ! 4 = 2
   \<and> click_cell 4 0 \<lparr>board = [1, 0, 0, 0, 2, 0, 0, 0, 0], currentPlayer = 1, gameOver = False,
                      winner = 0, aiEnabled = True\<rparr>
      = \<lparr>board = [1, 0, 0, 0, 2, 0, 0, 0, 0], currentPlayer = 1, gameOver = False,
         winner = 0, aiEnabled = True\<rparr>"
proof -
  let ?s1 = "\<lparr>board = [1, 1, 1, 0, 2, 2, 0, 0, 0], currentPlayer = 1, gameOver = True,
              winner = 1, aiEnabled = False\<rparr>"
  let ?s2 = "\<lparr>board = [1, 0, 0, 0, 2, 0, 0, 0, 0], currentPlayer = 1, gameOver = False,
              winner = 0, aiEnabled = True\<rparr>"
  have g: "gameOver ?s1" by simp
  then have h1: "gameOver ?s1 \<or> board ?s1 ! 3 \<noteq> 0" ..
  have c: "board ?s2 ! 4 = 2" by simp
  then have h2: "gameOver ?s2 \<or> board ?s2 ! 4 \<noteq> 0" by simp
  from click_cell_illegal [OF h1, of 0] click_cell_illegal [OF h2, of 0] g c
  show ?thesis by blast
qed

section \<open>Reachable states\<close>

lemma CheckWinner_replicate: "CheckWinner (replicate 9 0) = 0"
  by (simp add: CheckWinner_zero WINS_def)

lemma CheckDraw_replicate: "\<not> CheckDraw (replicate 9 0)"
  by (simp add: CheckDraw_def CheckDraw_cells_iff)

text \<open>
  What every operation re-establishes: nine cells, \<open>winner\<close> is what \<open>CheckWinner\<close>
  says of the board, and \<open>gameOver\<close> is the disjunction the source assigns.
\<close>

lemma AIMove_consistent:
  assumes "length (board s) = 9 \<and> winner s = CheckWinner (board s)
           \<and> (gameOver s \<longleftrightarrow> winner s \<noteq> 0 \<or> CheckDraw (board s))"
  shows "length (board (AIMove rnd s)) = 9
         \<and> winner (AIMove rnd s) = CheckWinner (board (AIMove rnd s))
         \<and> (gameOver (AIMove rnd s) \<longleftrightarrow>
              winner (AIMove rnd s) \<noteq> 0 \<or> CheckDraw (board (AIMove rnd s)))"
proof (cases "gameOver s")
  case True
  with assms show ?thesis by (simp add: AIMove_over)
next
  case False
  from AIMove_fields(1-3) [OF False, of rnd] assms AIMove_board_length [of rnd "board s"]
  show ?thesis by simp
qed

lemma apply_move_consistent:
  assumes "length (board s) = 9"
  shows "length (board (apply_move idx rnd s)) = 9
         \<and> winner (apply_move idx rnd s) = CheckWinner (board (apply_move idx rnd s))
         \<and> (gameOver (apply_move idx rnd s) \<longleftrightarrow>
              winner (apply_move idx rnd s) \<noteq> 0 \<or> CheckDraw (board (apply_move idx rnd s)))"
proof -
  let ?bd = "(board s)[idx := currentPlayer s]"
  let ?s' = "s\<lparr>board := ?bd, winner := CheckWinner ?bd,
                gameOver := (CheckWinner ?bd \<noteq> 0 \<or> CheckDraw ?bd)\<rparr>"
  have c: "length (board ?s') = 9 \<and> winner ?s' = CheckWinner (board ?s')
           \<and> (gameOver ?s' \<longleftrightarrow> winner ?s' \<noteq> 0 \<or> CheckDraw (board ?s'))"
    using assms by simp
  consider (over) "gameOver ?s'" | (ai) "\<not> gameOver ?s'" "aiEnabled s"
    | (two) "\<not> gameOver ?s'" "\<not> aiEnabled s"
    by blast
  then show ?thesis
  proof cases
    case over
    then have "apply_move idx rnd s = ?s'" by (auto simp: apply_move_def Let_def)
    with c show ?thesis by simp
  next
    case ai
    then have pm: "apply_move idx rnd s = AIMove rnd (?s'\<lparr>currentPlayer := 2\<rparr>)"
      by (auto simp: apply_move_def Let_def)
    from c have "length (board (?s'\<lparr>currentPlayer := 2\<rparr>)) = 9
        \<and> winner (?s'\<lparr>currentPlayer := 2\<rparr>) = CheckWinner (board (?s'\<lparr>currentPlayer := 2\<rparr>))
        \<and> (gameOver (?s'\<lparr>currentPlayer := 2\<rparr>) \<longleftrightarrow>
             winner (?s'\<lparr>currentPlayer := 2\<rparr>) \<noteq> 0 \<or> CheckDraw (board (?s'\<lparr>currentPlayer := 2\<rparr>)))"
      by simp
    from AIMove_consistent [OF this, of rnd] show ?thesis unfolding pm .
  next
    case two
    then have "apply_move idx rnd s =
        ?s'\<lparr>currentPlayer := (if currentPlayer s = 1 then 2 else 1)\<rparr>"
      by (auto simp: apply_move_def Let_def)
    with c show ?thesis by simp
  qed
qed

lemma reachable_consistent:
  "s \<in> reachable \<Longrightarrow>
     length (board s) = 9 \<and> winner s = CheckWinner (board s)
     \<and> (gameOver s \<longleftrightarrow> winner s \<noteq> 0 \<or> CheckDraw (board s))"
proof (induction rule: reachable.induct)
  case r_initial
  show ?case by (simp add: initial_def CheckWinner_replicate CheckDraw_replicate)
next
  case (r_startup s)
  show ?case
    by (simp add: GameStartUp_def ResetGame_def CheckWinner_replicate CheckDraw_replicate)
next
  case (r_reset s)
  show ?case by (simp add: ResetGame_def CheckWinner_replicate CheckDraw_replicate)
next
  case (r_checkbox s v)
  then show ?case by simp
next
  case (r_cell s idx clicked rnd)
  show ?case
  proof (cases "Button (disabled idx s) clicked")
    case True
    with r_cell.IH apply_move_consistent [of s idx rnd] show ?thesis
      by (simp add: DrawBoardUI_cell_def)
  next
    case False
    with r_cell.IH show ?thesis by (simp add: DrawBoardUI_cell_def)
  qed
next
  case (r_move s idx rnd)
  then show ?case using apply_move_consistent [of s idx rnd] by blast
next
  case (r_opponent s rnd)
  from AIMove_consistent [OF r_opponent.IH] show ?case .
qed

text \<open>
  C3: in every reachable state, \<open>gameOver\<close> holds exactly when \<open>winner\<close> is not 0 or
  none of the nine cells is empty, and \<open>winner\<close> is not 0 only if some line of \<open>WINS\<close>
  is uniform and non-empty.
\<close>

theorem reachable_over_winner:
  assumes "s \<in> reachable"
  shows "(gameOver s \<longleftrightarrow> winner s \<noteq> 0 \<or> (\<forall>i<9. board s ! i \<noteq> 0))
         \<and> (winner s \<noteq> 0 \<longrightarrow> (\<exists>L \<in> set WINS. uniform_line (board s) L))"
proof -
  from reachable_consistent [OF assms]
  have len: "length (board s) = 9" and w: "winner s = CheckWinner (board s)"
    and g: "gameOver s \<longleftrightarrow> winner s \<noteq> 0 \<or> CheckDraw (board s)"
    by simp_all
  from g CheckDraw_iff [OF len] w
  have "gameOver s \<longleftrightarrow> winner s \<noteq> 0 \<or> (\<forall>i<9. board s ! i \<noteq> 0)" by auto
  moreover from w CheckWinner_zero [of "board s"]
  have "winner s \<noteq> 0 \<longrightarrow> (\<exists>L \<in> set WINS. uniform_line (board s) L)" by auto
  ultimately show ?thesis by blast
qed

theorem reachable_over_winner_witness:
  "click_cell 2 0 (click_cell 5 0 (click_cell 1 0 (click_cell 4 0 (click_cell 0 0
      (initial\<lparr>aiEnabled := False\<rparr>))))) \<in> reachable
   \<and> board (click_cell 2 0 (click_cell 5 0 (click_cell 1 0 (click_cell 4 0 (click_cell 0 0
      (initial\<lparr>aiEnabled := False\<rparr>)))))) = [1, 1, 1, 0, 2, 2, 0, 0, 0]
   \<and> winner (click_cell 2 0 (click_cell 5 0 (click_cell 1 0 (click_cell 4 0 (click_cell 0 0
      (initial\<lparr>aiEnabled := False\<rparr>)))))) = 1
   \<and> gameOver (click_cell 2 0 (click_cell 5 0 (click_cell 1 0 (click_cell 4 0 (click_cell 0 0
      (initial\<lparr>aiEnabled := False\<rparr>))))))
   \<and> (\<exists>L \<in> set WINS. uniform_line (board (click_cell 2 0 (click_cell 5 0 (click_cell 1 0
      (click_cell 4 0 (click_cell 0 0 (initial\<lparr>aiEnabled := False\<rparr>))))))) L)"
proof -
  let ?s = "click_cell 2 0 (click_cell 5 0 (click_cell 1 0 (click_cell 4 0 (click_cell 0 0
      (initial\<lparr>aiEnabled := False\<rparr>)))))"
  have r: "?s \<in> reachable"
    unfolding click_cell_def
    by (intro reachable.r_cell reachable.r_checkbox reachable.r_initial) simp_all
  have b: "board ?s = [1, 1, 1, 0, 2, 2, 0, 0, 0]" by code_simp
  have w: "winner ?s = 1" by code_simp
  from reachable_over_winner [OF r] w
  have "gameOver ?s \<and> (\<exists>L \<in> set WINS. uniform_line (board ?s) L)" by simp
  with r b w show ?thesis by blast
qed

section \<open>Reset\<close>

text \<open>
  C7: \<open>ResetGame\<close> takes any state to the initial game state (nine empty cells, X to
  move, not over, no winner), and resetting twice is the same as resetting once.
\<close>

theorem ResetGame_initial_idempotent:
  "board (ResetGame s) = replicate 9 0 \<and> currentPlayer (ResetGame s) = 1
   \<and> gameOver (ResetGame s) = False \<and> winner (ResetGame s) = 0
   \<and> ResetGame s = initial\<lparr>aiEnabled := aiEnabled s\<rparr>
   \<and> ResetGame (ResetGame s) = ResetGame s"
  by (simp add: ResetGame_def initial_def)

text \<open>
  C10: \<open>ResetGame\<close> leaves the play-versus-AI toggle as it was.
\<close>

theorem ResetGame_keeps_aiEnabled:
  "aiEnabled (ResetGame s) = aiEnabled s"
  by (simp add: ResetGame_def)

end
